theory Spec2Isabelle
  imports Main "HOL-Library.Sublist" "HOL-Library.Multiset" "HOL-Library.AList"
begin

section \<open>Strings as the component uses them\<close>

text \<open>
  The lesson view is a TypeScript component; its strings are modelled as
  \<^typ>\<open>string\<close>, one \<^typ>\<open>char\<close> per code unit, which covers the ASCII
  text that plan labels and media URLs are made of. Case conversion maps the
  26 ASCII letters and leaves every other character as it is.
\<close>

definition lowerLetters :: string where
  "lowerLetters = ''abcdefghijklmnopqrstuvwxyz''"

definition upperLetters :: string where
  "upperLetters = ''ABCDEFGHIJKLMNOPQRSTUVWXYZ''"

definition digitChars :: string where
  "digitChars = ''0123456789''"

definition toUpperChar :: "char \<Rightarrow> char" where
  "toUpperChar c = (case map_of (zip lowerLetters upperLetters) c of Some d \<Rightarrow> d | None \<Rightarrow> c)"

definition toLowerChar :: "char \<Rightarrow> char" where
  "toLowerChar c = (case map_of (zip upperLetters lowerLetters) c of Some d \<Rightarrow> d | None \<Rightarrow> c)"

definition toUpperCase :: "string \<Rightarrow> string" where
  "toUpperCase s = map toUpperChar s"

definition toLowerCase :: "string \<Rightarrow> string" where
  "toLowerCase s = map toLowerChar s"

text \<open>\<open>s.includes(t)\<close>: \<open>t\<close> occurs in \<open>s\<close> as a contiguous piece.\<close>

primrec includes_str :: "string \<Rightarrow> string \<Rightarrow> bool" where
  "includes_str [] t = (t = [])"
| "includes_str (c # s) t = (prefix t (c # s) \<or> includes_str s t)"

section \<open>Download permission\<close>

text \<open>
  \<open>checkDownloadPermission(contentType, isUltra)\<close> closes over the optional
  \<open>user\<close> prop. Of the user only \<open>subscriptionPlan\<close> is read; it may be
  missing, and the empty string is as falsy as a missing one.
\<close>

record user =
  subscriptionPlan :: "string option"

datatype content_kind = VIDEO | PDF

definition checkDownloadPermission :: "user option \<Rightarrow> content_kind \<Rightarrow> bool \<Rightarrow> bool" where
  "checkDownloadPermission usr contentType isUltra =
     (case usr of
        None \<Rightarrow> False
      | Some u \<Rightarrow>
          (case subscriptionPlan u of
             None \<Rightarrow> False
           | Some p \<Rightarrow>
               if p = [] then False
               else
                 let plan = toUpperCase p in
                 if plan = ''WEEKLY'' \<or> plan = ''MONTHLY'' then False
                 else if plan = ''QUARTERLY'' \<or> plan = ''3_MONTHS'' \<or> plan = ''3 MONTHS'' then
                   (if contentType = VIDEO \<and> isUltra then False else True)
                 else if plan = ''YEARLY'' \<or> plan = ''LIFETIME'' \<or> plan = ''1_YEAR''
                         \<or> plan = ''1 YEAR'' then True
                 else False))"

subsection \<open>The decision table of the specification\<close>

text \<open>
  The specification describes the evaluator as a table over plan tiers. The
  labels below are the spellings the evaluator accepts, compared after upper-casing.
\<close>

datatype tier = Weekly | Monthly | Quarterly | Yearly | Lifetime

definition tier_labels :: "(string \<times> tier) list" where
  "tier_labels =
     [(''WEEKLY'', Weekly), (''MONTHLY'', Monthly),
      (''QUARTERLY'', Quarterly), (''3_MONTHS'', Quarterly), (''3 MONTHS'', Quarterly),
      (''YEARLY'', Yearly), (''LIFETIME'', Lifetime), (''1_YEAR'', Yearly), (''1 YEAR'', Yearly)]"

definition spec_tier :: "user option \<Rightarrow> tier option" where
  "spec_tier usr =
     (case usr of
        None \<Rightarrow> None
      | Some u \<Rightarrow>
          (case subscriptionPlan u of
             None \<Rightarrow> None
           | Some p \<Rightarrow> map_of tier_labels (toUpperCase p)))"

fun spec_table :: "tier option \<Rightarrow> content_kind \<Rightarrow> bool \<Rightarrow> bool" where
  "spec_table None k premium = False"
| "spec_table (Some Weekly) k premium = False"
| "spec_table (Some Monthly) k premium = False"
| "spec_table (Some Quarterly) PDF premium = True"
| "spec_table (Some Quarterly) VIDEO premium = (\<not> premium)"
| "spec_table (Some Yearly) k premium = True"
| "spec_table (Some Lifetime) k premium = True"


section \<open>Media references\<close>

subsection \<open>Pattern matching on URLs\<close>

text \<open>
  The class \<open>[-\w]\<close> of the regular expressions: a word character
  (letter, digit, underscore) or a hyphen.
\<close>

definition wordChars :: string where
  "wordChars = upperLetters @ lowerLetters @ digitChars @ ''_''"

definition isIdChar :: "char \<Rightarrow> bool" where
  "isIdChar c = (c = CHR ''-'' \<or> c \<in> set wordChars)"

text \<open>
  \<open>url.match(/[-\w]{25,}/)\<close>: the engine tries each start position from the
  left; at a position the greedy quantifier takes the whole run of class
  characters and succeeds when the run has 25 characters or more. The result
  is \<open>idMatch[0]\<close>, or \<open>None\<close> for \<open>null\<close>.
\<close>

fun idMatch :: "string \<Rightarrow> string option" where
  "idMatch [] = None"
| "idMatch (c # cs) =
     (let run = takeWhile isIdChar (c # cs)
      in if 25 \<le> length run then Some run else idMatch cs)"

definition getDriveDownloadLink :: "string \<Rightarrow> string option" where
  "getDriveDownloadLink url =
     (case idMatch url of
        Some i \<Rightarrow> Some (''https://drive.google.com/u/0/uc?id='' @ i @ ''&export=download'')
      | None \<Rightarrow> None)"

text \<open>
  The YouTube expression
  \<open>(?:youtu\.be\/|youtube\.com(?:\/embed\/|\/v\/|\/watch\?v=|\/user\/\S+|\/ytscreeningroom\?v=))([\w-]{11})\<close>.
  \<open>id11\<close> is the capture group at the head of a string; \<open>userTail\<close> is
  the greedy \<open>\S+\<close> giving characters back one at a time until eleven
  class characters follow; \<open>ytAt\<close> tries the expression at the head of a
  string (its alternatives exclude one another by their first characters);
  \<open>ytMatch\<close> tries each start position from the left and returns
  \<open>ytMatch[1]\<close>.
\<close>

definition spaceChars :: string where
  "spaceChars = [CHR 0x09, CHR 0x0A, CHR 0x0B, CHR 0x0C, CHR 0x0D, CHR 0x20, CHR 0xA0]"

definition isNonSpace :: "char \<Rightarrow> bool" where
  "isNonSpace c = (c \<notin> set spaceChars)"

definition id11 :: "string \<Rightarrow> string option" where
  "id11 s = (let t = take 11 s in if length t = 11 \<and> list_all isIdChar t then Some t else None)"

fun userTail :: "string \<Rightarrow> nat \<Rightarrow> string option" where
  "userTail s 0 = None"
| "userTail s (Suc k) =
     (case id11 (drop (Suc k) s) of Some t \<Rightarrow> Some t | None \<Rightarrow> userTail s k)"

definition ytAt :: "string \<Rightarrow> string option" where
  "ytAt s =
     (if prefix ''youtu.be/'' s then id11 (drop 9 s)
      else if prefix ''youtube.com'' s then
        (let r = drop 11 s in
         if prefix ''/embed/'' r then id11 (drop 7 r)
         else if prefix ''/v/'' r then id11 (drop 3 r)
         else if prefix ''/watch?v='' r then id11 (drop 9 r)
         else if prefix ''/user/'' r then
           (let u = drop 6 r in userTail u (length (takeWhile isNonSpace u)))
         else if prefix ''/ytscreeningroom?v='' r then id11 (drop 19 r)
         else None)
      else None)"

fun ytMatch :: "string \<Rightarrow> string option" where
  "ytMatch [] = None"
| "ytMatch (c # cs) = (case ytAt (c # cs) of Some t \<Rightarrow> Some t | None \<Rightarrow> ytMatch cs)"

subsection \<open>Lesson content\<close>

text \<open>
  The fields of \<open>LessonContent\<close> that the component reads. \<open>ctype\<close> is the
  field \<open>type\<close>, a string tag; \<open>tags\<close>, \<open>videoPlaylist\<close>, \<open>mcqData\<close>,
  \<open>userAnswers\<close> and \<open>aiHtmlContent\<close> are optional.
\<close>

record playlist_item =
  item_title :: string
  url :: string

record mcq_item =
  question :: string
  options :: "string list"
  correctAnswer :: nat
  explanation :: string

type_synonym answers = "(nat \<times> nat) list"

record lesson_content =
  ctype :: string
  title :: string
  content :: string
  tags :: "string list option"
  videoPlaylist :: "playlist_item list option"
  mcqData :: "mcq_item list option"
  userAnswers :: "answers option"

datatype error = TypeError | SyntaxError

subsection \<open>The video renderer's URL parser\<close>

record video_view =
  embedUrl :: string
  downloadUrl :: "string option"
  isDriveVideo :: bool
  isYouTubeVideo :: bool

definition resolveVideo :: "bool \<Rightarrow> string \<Rightarrow> video_view" where
  "resolveVideo canDownload u =
     (if includes_str u ''drive.google.com'' then
        (case idMatch u of
           Some i \<Rightarrow>
             \<lparr>embedUrl = ''https://drive.google.com/file/d/'' @ i @ ''/preview'',
              downloadUrl =
                (if canDownload
                 then Some (''https://drive.google.com/u/0/uc?id='' @ i @ ''&export=download'')
                 else None),
              isDriveVideo = True, isYouTubeVideo = False\<rparr>
         | None \<Rightarrow>
             \<lparr>embedUrl = u, downloadUrl = None, isDriveVideo = True, isYouTubeVideo = False\<rparr>)
      else if includes_str u ''youtube.com'' \<or> includes_str u ''youtu.be'' then
        \<lparr>embedUrl =
           (case ytMatch u of
              Some v \<Rightarrow> ''https://www.youtube.com/embed/'' @ v @ ''?autoplay=1''
            | None \<Rightarrow> u),
         downloadUrl = None, isDriveVideo = False, isYouTubeVideo = True\<rparr>
      else
        \<lparr>embedUrl = u, downloadUrl = None, isDriveVideo = False, isYouTubeVideo = False\<rparr>)"

definition secureSrc :: "video_view \<Rightarrow> string" where
  "secureSrc v =
     (if isYouTubeVideo v
      then embedUrl v @ ''&modestbranding=1&rel=0&iv_load_policy=3&controls=1&disablekb=1&showinfo=0&fs=0''
      else embedUrl v)"

definition isUltraContent :: "lesson_content \<Rightarrow> bool" where
  "isUltraContent c =
     (includes_str (toLowerCase (title c)) ''ultra''
      \<or> (case tags c of None \<Rightarrow> False | Some ts \<Rightarrow> ''ultra'' \<in> set ts))"

definition playlist :: "lesson_content \<Rightarrow> string \<Rightarrow> playlist_item list" where
  "playlist c chapterTitle =
     (case videoPlaylist c of
        Some (v # vs) \<Rightarrow> v # vs
      | _ \<Rightarrow> [\<lparr>item_title = chapterTitle, url = content c\<rparr>])"

text \<open>
  The video renderer for the playlist entry \<open>currentVideoIndex\<close>. Reading
  \<open>.url\<close> of an entry that does not exist raises a TypeError.
\<close>

definition videoRenderer :: "user option \<Rightarrow> lesson_content \<Rightarrow> string \<Rightarrow> nat \<Rightarrow> error + video_view" where
  "videoRenderer usr c chapterTitle currentVideoIndex =
     (let pl = playlist c chapterTitle in
      if currentVideoIndex < length pl
      then Inr (resolveVideo (checkDownloadPermission usr VIDEO (isUltraContent c))
                  (url (pl ! currentVideoIndex)))
      else Inl TypeError)"

text \<open>The link behind the download button: \<open>canDownload && downloadUrl\<close>.\<close>

definition videoDownloadButton :: "bool \<Rightarrow> video_view \<Rightarrow> string option" where
  "videoDownloadButton canDownload v =
     (if canDownload
      then (case downloadUrl v of Some l \<Rightarrow> (if l = [] then None else Some l) | None \<Rightarrow> None)
      else None)"

subsection \<open>The PDF viewer\<close>

record pdf_view =
  canDownloadPdf :: bool
  pdfDownloadLink :: "string option"

definition pdfViewer :: "user option \<Rightarrow> lesson_content \<Rightarrow> pdf_view" where
  "pdfViewer usr c =
     (let can = checkDownloadPermission usr PDF False in
      \<lparr>canDownloadPdf = can,
       pdfDownloadLink =
         (if includes_str (content c) ''drive.google.com'' \<and> can then
            (case idMatch (content c) of
               Some i \<Rightarrow> Some (''https://drive.google.com/u/0/uc?id='' @ i @ ''&export=download'')
             | None \<Rightarrow> None)
          else if can then Some (content c)
          else None)\<rparr>)"

definition pdfDownloadButton :: "pdf_view \<Rightarrow> string option" where
  "pdfDownloadButton v =
     (if canDownloadPdf v
      then (case pdfDownloadLink v of Some l \<Rightarrow> (if l = [] then None else Some l) | None \<Rightarrow> None)
      else None)"

subsection \<open>Which renderer a lesson reaches\<close>

text \<open>
  The component falls through its renderers in source order. With no content
  (\<open>content = null\<close>) the optional chaining of the first tests yields
  \<open>undefined\<close>, and the video test reads \<open>content.type\<close> and raises.
\<close>

datatype renderer =
  LoadingView | AiNotesView | McqView | VideoView | PdfView | HtmlNotesView | MarkdownView

definition isVideoLesson :: "lesson_content \<Rightarrow> bool" where
  "isVideoLesson c =
     ((ctype c = ''PDF_VIEWER'' \<or> ctype c = ''VIDEO_LECTURE'')
      \<and> (includes_str (content c) ''youtube.com'' \<or> includes_str (content c) ''youtu.be''
         \<or> includes_str (content c) ''drive.google.com'' \<or> includes_str (content c) ''.mp4''
         \<or> (case videoPlaylist c of Some (v # vs) \<Rightarrow> True | _ \<Rightarrow> False)))"

definition isPdfLesson :: "lesson_content \<Rightarrow> bool" where
  "isPdfLesson c =
     (ctype c = ''PDF_VIEWER'' \<or> ctype c = ''PDF_FREE'' \<or> ctype c = ''PDF_PREMIUM'')"

definition lessonRenderer :: "bool \<Rightarrow> lesson_content option \<Rightarrow> error + renderer" where
  "lessonRenderer loading co =
     (if loading then Inr LoadingView
      else
        (case co of
           None \<Rightarrow> Inl TypeError
         | Some c \<Rightarrow>
             if ctype c = ''NOTES_IMAGE_AI'' then Inr AiNotesView
             else if (ctype c = ''MCQ_ANALYSIS'' \<or> ctype c = ''MCQ_SIMPLE'') \<and> mcqData c \<noteq> None
               then Inr McqView
             else if isVideoLesson c then Inr VideoView
             else if isPdfLesson c then Inr PdfView
             else if ctype c = ''NOTES_HTML_FREE'' \<or> ctype c = ''NOTES_HTML_PREMIUM''
               then Inr HtmlNotesView
             else Inr MarkdownView))"


section \<open>The MCQ session\<close>

subsection \<open>State\<close>

text \<open>
  The component state that the MCQ renderer uses. \<open>mcqState\<close> is a JavaScript
  object with integer keys, kept as an association list: \<open>map_of\<close> reads a
  key, \<open>AList.update\<close> is the spread \<open>{...p, [idx]: oIdx}\<close>, and
  \<open>Object_keys\<close> lists the keys in ascending order, as the engine does for
  integer keys.
\<close>

record mcq_session =
  mcqState :: answers
  showResults :: bool
  localMcqData :: "mcq_item list"
  showResumePrompt :: bool
  analysisUnlocked :: bool
  showSubmitModal :: bool
  sessionTime :: nat
  batchIndex :: nat

definition initialSession :: mcq_session where
  "initialSession =
     \<lparr>mcqState = [], showResults = False, localMcqData = [], showResumePrompt = False,
      analysisUnlocked = False, showSubmitModal = False, sessionTime = 0, batchIndex = 0\<rparr>"

definition BATCH_SIZE :: nat where
  "BATCH_SIZE = 50"

definition Object_keys :: "answers \<Rightarrow> nat list" where
  "Object_keys m = sort (remdups (map fst m))"

definition storageKey :: "string \<Rightarrow> string" where
  "storageKey chapterId = ''nst_mcq_progress_'' @ chapterId"

subsection \<open>Derived values of a render\<close>

definition currentBatchData :: "mcq_session \<Rightarrow> mcq_item list" where
  "currentBatchData s = take BATCH_SIZE (drop (batchIndex s * BATCH_SIZE) (localMcqData s))"

text \<open>
  \<open>score\<close> is the \<open>reduce\<close> over \<open>Object.keys(mcqState)\<close>. Reading
  \<open>.correctAnswer\<close> of \<open>localMcqData[k]\<close> for a key beyond the list
  raises a TypeError.
\<close>

fun scoreFrom :: "nat list \<Rightarrow> answers \<Rightarrow> mcq_item list \<Rightarrow> nat \<Rightarrow> error + nat" where
  "scoreFrom [] m qs acc = Inr acc"
| "scoreFrom (k # ks) m qs acc =
     (if k < length qs
      then scoreFrom ks m qs (acc + (if map_of m k = Some (correctAnswer (qs ! k)) then 1 else 0))
      else Inl TypeError)"

definition score :: "answers \<Rightarrow> mcq_item list \<Rightarrow> error + nat" where
  "score m qs = scoreFrom (Object_keys m) m qs 0"

definition attemptedCount :: "mcq_session \<Rightarrow> nat" where
  "attemptedCount s = length (Object_keys (mcqState s))"

definition canSubmit :: "mcq_session \<Rightarrow> bool" where
  "canSubmit s = (min 50 (length (localMcqData s)) \<le> attemptedCount s)"

subsection \<open>Persistence\<close>

text \<open>
  The snapshot is the object \<open>{mcqState, batchIndex, localMcqData}\<close> that is
  serialised under the chapter's key. Writes to \<open>localStorage\<close> are
  returned as values; what \<open>localStorage.getItem\<close> returned is an argument.
\<close>

record snapshot =
  snap_mcqState :: answers
  snap_batchIndex :: nat
  snap_localMcqData :: "mcq_item list"

datatype storage_write = SetItem string snapshot | RemoveItem string

definition snapshotOf :: "mcq_session \<Rightarrow> snapshot" where
  "snapshotOf s =
     \<lparr>snap_mcqState = mcqState s, snap_batchIndex = batchIndex s,
      snap_localMcqData = localMcqData s\<rparr>"

text \<open>The persistence effect, as it runs after a render.\<close>

definition persistEffect :: "string \<Rightarrow> mcq_session \<Rightarrow> storage_write list" where
  "persistEffect chapterId s =
     (if \<not> showResults s \<and> 0 < length (Object_keys (mcqState s))
      then [SetItem (storageKey chapterId) (snapshotOf s)]
      else [])"

text \<open>
  React runs the effect after a render in which one of its dependencies
  \<open>mcqState\<close>, \<open>batchIndex\<close>, \<open>localMcqData\<close>, \<open>showResults\<close> changed
  (the chapter is fixed during a session).
\<close>

definition depsChanged :: "mcq_session \<Rightarrow> mcq_session \<Rightarrow> bool" where
  "depsChanged s s' =
     (mcqState s' \<noteq> mcqState s \<or> batchIndex s' \<noteq> batchIndex s
      \<or> localMcqData s' \<noteq> localMcqData s \<or> showResults s' \<noteq> showResults s)"

definition afterRender :: "string \<Rightarrow> mcq_session \<Rightarrow> mcq_session \<Rightarrow> mcq_session \<times> storage_write list" where
  "afterRender chapterId s s' = (s', if depsChanged s s' then persistEffect chapterId s' else [])"

subsection \<open>Start of a session\<close>


text \<open>
  What \<open>JSON.parse\<close> can return, as far as \<open>handleResume\<close> reads it:
  \<open>null\<close>; a value with no properties of its own (number, string, boolean,
  array); or an object, of which the three snapshot fields are read, each of
  them present or not. The parser is the platform's and is an argument; it
  returns \<open>None\<close> where \<open>JSON.parse\<close> raises a SyntaxError.
\<close>

datatype json_value =
  JNull
| JNonObject
| JObject "answers option" "nat option" "mcq_item list option"

definition handleResume :: "(string \<Rightarrow> json_value option) \<Rightarrow> string option \<Rightarrow> mcq_session \<Rightarrow> error + mcq_session" where
  "handleResume JSON_parse saved s =
     (let text = (case saved of Some (x # t) \<Rightarrow> x # t | _ \<Rightarrow> ''{}'') in
      case JSON_parse text of
        None \<Rightarrow> Inl SyntaxError
      | Some JNull \<Rightarrow> Inl TypeError
      | Some JNonObject \<Rightarrow> Inr (s\<lparr>mcqState := [], batchIndex := 0, showResumePrompt := False\<rparr>)
      | Some (JObject a b d) \<Rightarrow>
          Inr (s\<lparr>mcqState := (case a of Some m \<Rightarrow> m | None \<Rightarrow> []),
                 batchIndex := (case b of Some n \<Rightarrow> n | None \<Rightarrow> 0),
                 localMcqData := (case d of Some q \<Rightarrow> q | None \<Rightarrow> localMcqData s),
                 showResumePrompt := False\<rparr>))"

definition handleRestart :: "string \<Rightarrow> mcq_item list \<Rightarrow> mcq_session \<Rightarrow> mcq_session \<times> storage_write list" where
  "handleRestart chapterId shuffled s =
     (s\<lparr>mcqState := [], batchIndex := 0, localMcqData := shuffled,
        showResumePrompt := False, showResults := False\<rparr>,
      [RemoveItem (storageKey chapterId)])"

subsection \<open>Answering, paging, submitting\<close>

text \<open>
  A click on option \<open>oIdx\<close> of the question at position \<open>localIdx\<close> of the
  displayed batch. The button exists for the displayed questions and their
  options only, and is disabled once the question has an answer or the
  results are shown.
\<close>

definition clickOption :: "nat \<Rightarrow> nat \<Rightarrow> mcq_session \<Rightarrow> mcq_session" where
  "clickOption localIdx oIdx s =
     (let idx = batchIndex s * BATCH_SIZE + localIdx in
      if localIdx < length (currentBatchData s)
         \<and> oIdx < length (options (currentBatchData s ! localIdx))
         \<and> map_of (mcqState s) idx = None \<and> \<not> showResults s
      then s\<lparr>mcqState := AList.update idx oIdx (mcqState s)\<rparr>
      else s)"

definition clickPrev :: "mcq_session \<Rightarrow> mcq_session" where
  "clickPrev s = (if 0 < batchIndex s then s\<lparr>batchIndex := batchIndex s - 1\<rparr> else s)"

definition clickNext :: "mcq_session \<Rightarrow> mcq_session" where
  "clickNext s =
     (if (batchIndex s + 1) * BATCH_SIZE < length (localMcqData s)
      then s\<lparr>batchIndex := batchIndex s + 1\<rparr>
      else s)"

definition clickSubmit :: "mcq_session \<Rightarrow> mcq_session" where
  "clickSubmit s = (if \<not> showResults s \<and> canSubmit s then s\<lparr>showSubmitModal := True\<rparr> else s)"

definition cancelSubmit :: "mcq_session \<Rightarrow> mcq_session" where
  "cancelSubmit s = (if showSubmitModal s then s\<lparr>showSubmitModal := False\<rparr> else s)"

text \<open>The three mutations of a running session, each followed by its render.\<close>

definition answer :: "string \<Rightarrow> nat \<Rightarrow> nat \<Rightarrow> mcq_session \<Rightarrow> mcq_session \<times> storage_write list" where
  "answer chapterId localIdx oIdx s = afterRender chapterId s (clickOption localIdx oIdx s)"

definition nextBatch :: "string \<Rightarrow> mcq_session \<Rightarrow> mcq_session \<times> storage_write list" where
  "nextBatch chapterId s = afterRender chapterId s (clickNext s)"

definition prevBatch :: "string \<Rightarrow> mcq_session \<Rightarrow> mcq_session \<times> storage_write list" where
  "prevBatch chapterId s = afterRender chapterId s (clickPrev s)"

subsection \<open>The session timer\<close>

text \<open>
  The timer effect holds an interval exactly while none of the three flags is
  set; \<open>tick\<close> is one second passing. The effect is declared before the
  component's early returns and does not read the \<open>loading\<close> prop.
\<close>

definition timerRunning :: "mcq_session \<Rightarrow> bool" where
  "timerRunning s = (\<not> showResults s \<and> \<not> showSubmitModal s \<and> \<not> showResumePrompt s)"

definition tick :: "mcq_session \<Rightarrow> mcq_session" where
  "tick s = (if timerRunning s then s\<lparr>sessionTime := sessionTime s + 1\<rparr> else s)"

text \<open>
  The phases of the specification, read off the component: the \<open>loading\<close>
  prop shows the spinner; otherwise results shown, resume prompt and submit
  modal stand for Completed, AwaitingResumeChoice and ConfirmingSubmit.
\<close>

datatype phase = Loading | AwaitingResumeChoice | InProgress | ConfirmingSubmit | Completed

definition phaseOf :: "bool \<Rightarrow> mcq_session \<Rightarrow> phase" where
  "phaseOf loading s =
     (if loading then Loading
      else if showResults s then Completed
      else if showResumePrompt s then AwaitingResumeChoice
      else if showSubmitModal s then ConfirmingSubmit
      else InProgress)"


section \<open>Notions of the specification\<close>

text \<open>
  A token, in the words of the specification: 25 or more word characters or
  hyphens in a row. \<open>tokenAt u i t\<close> says that the token \<open>t\<close> stands in
  \<open>u\<close> at position \<open>i\<close>.
\<close>

definition isToken :: "string \<Rightarrow> bool" where
  "isToken t = (25 \<le> length t \<and> list_all isIdChar t)"

definition tokenAt :: "string \<Rightarrow> nat \<Rightarrow> string \<Rightarrow> bool" where
  "tokenAt u i t = (isToken t \<and> i + length t \<le> length u \<and> take (length t) (drop i u) = t)"


text \<open>
  The answered questions whose selected option is the correct one, in the
  words of the specification's score.
\<close>

definition correctKeys :: "answers \<Rightarrow> mcq_item list \<Rightarrow> nat set" where
  "correctKeys m qs = {k \<in> dom (map_of m). map_of m k = Some (correctAnswer (qs ! k))}"

section \<open>Example inputs\<close>

text \<open>Learners and lessons at which the theorems below are instantiated.\<close>

definition yearlyUser :: "user option" where
  "yearlyUser = Some \<lparr>subscriptionPlan = Some ''yearly''\<rparr>"

definition quarterlyUser :: "user option" where
  "quarterlyUser = Some \<lparr>subscriptionPlan = Some ''Quarterly''\<rparr>"

definition driveLesson :: lesson_content where
  "driveLesson =
     \<lparr>ctype = ''VIDEO_LECTURE'', title = ''Motion'',
      content = ''https://drive.google.com/file/d/1A2b3C4d5E6f7G8h9I0jK_lMnOpQ-rStU/view'',
      tags = None, videoPlaylist = None, mcqData = None, userAnswers = None\<rparr>"

definition premiumPdfLesson :: lesson_content where
  "premiumPdfLesson =
     \<lparr>ctype = ''PDF_PREMIUM'', title = ''Ultra notes'',
      content = ''https://cdn.example.org/notes.pdf'',
      tags = Some [''ultra''], videoPlaylist = None, mcqData = None, userAnswers = None\<rparr>"

definition freePdfLesson :: lesson_content where
  "freePdfLesson =
     \<lparr>ctype = ''PDF_FREE'', title = ''Notes'',
      content = ''https://cdn.example.org/notes.pdf'',
      tags = None, videoPlaylist = None, mcqData = None, userAnswers = None\<rparr>"

definition q0 :: mcq_item where
  "q0 = \<lparr>question = ''2 + 2 = ?'', options = [''4'', ''5''], correctAnswer = 0, explanation = ''sum''\<rparr>"

definition q1 :: mcq_item where
  "q1 = \<lparr>question = ''3 - 2 = ?'', options = [''0'', ''1''], correctAnswer = 1, explanation = ''difference''\<rparr>"


text \<open>
  Sessions: a pool of two questions shown in the order \<open>[q1, q0]\<close>; a pool
  of 120 questions at its start; the same pool with one answer, on the second
  batch. \<open>sampleParse\<close> is \<open>JSON.parse\<close> on the three texts it lists, and
  a SyntaxError elsewhere; it is applied to these three texts and to \<open>%%\<close>.
\<close>

definition shuffledSession :: mcq_session where
  "shuffledSession = initialSession\<lparr>localMcqData := [q1, q0]\<rparr>"

definition longSession :: mcq_session where
  "longSession = initialSession\<lparr>localMcqData := replicate 120 q0\<rparr>"

definition answeredSession :: mcq_session where
  "answeredSession = longSession\<lparr>mcqState := [(0, 0)], batchIndex := 1\<rparr>"


section \<open>Facts about the string helpers\<close>

lemmas case_conv_defs =
  toUpperCase_def toUpperChar_def toLowerCase_def toLowerChar_def lowerLetters_def upperLetters_def

lemmas char_class_defs =
  isIdChar_def wordChars_def upperLetters_def lowerLetters_def digitChars_def

lemma toUpperCase_Nil [simp]: "toUpperCase [] = []"
  by (simp add: toUpperCase_def)

lemma toUpperCase_eq_Nil [simp]: "toUpperCase p = [] \<longleftrightarrow> p = []"
  by (simp add: toUpperCase_def)

section \<open>The download permission is the decision table\<close>

text \<open>
  Claim C1, as amended. The evaluator is a total function of the user, the
  content kind and the premium flag, and it is the decision table of the
  specification over the tier that the upper-cased plan label names: weekly
  and monthly are denied everything, quarterly is allowed documents and
  standard video and denied premium video, yearly and lifetime are allowed
  everything, and a missing user, a missing plan or any other label is
  denied. The aliases are \<open>3_months\<close> and \<open>3 months\<close> for quarterly,
  \<open>1_year\<close> and \<open>1 year\<close> for yearly; two labels that agree after
  upper-casing get the same decision.
\<close>

theorem checkDownloadPermission_table:
  "checkDownloadPermission usr k premium = spec_table (spec_tier usr) k premium
   \<and> (toUpperCase p = toUpperCase q \<longrightarrow>
        checkDownloadPermission (Some \<lparr>subscriptionPlan = Some p\<rparr>) k premium
        = checkDownloadPermission (Some \<lparr>subscriptionPlan = Some q\<rparr>) k premium)"
proof
  show "checkDownloadPermission usr k premium = spec_table (spec_tier usr) k premium"
    by (cases k)
      (auto simp: checkDownloadPermission_def spec_tier_def tier_labels_def Let_def
        split: option.splits)
next
  show "toUpperCase p = toUpperCase q \<longrightarrow>
        checkDownloadPermission (Some \<lparr>subscriptionPlan = Some p\<rparr>) k premium
        = checkDownloadPermission (Some \<lparr>subscriptionPlan = Some q\<rparr>) k premium"
  proof
    assume eq: "toUpperCase p = toUpperCase q"
    have "p = [] \<longleftrightarrow> q = []"
      using eq by (metis toUpperCase_eq_Nil)
    then show "checkDownloadPermission (Some \<lparr>subscriptionPlan = Some p\<rparr>) k premium
        = checkDownloadPermission (Some \<lparr>subscriptionPlan = Some q\<rparr>) k premium"
      using eq by (simp add: checkDownloadPermission_def Let_def)
  qed
qed

theorem checkDownloadPermission_table_witness:
  "toUpperCase ''Quarterly'' = toUpperCase ''QUARTERLY''
   \<and> checkDownloadPermission (Some \<lparr>subscriptionPlan = Some ''Quarterly''\<rparr>) VIDEO True
     = checkDownloadPermission (Some \<lparr>subscriptionPlan = Some ''QUARTERLY''\<rparr>) VIDEO True
   \<and> checkDownloadPermission (Some \<lparr>subscriptionPlan = Some ''3 months''\<rparr>) PDF False
     = spec_table (Some Quarterly) PDF False"
proof -
  have u: "toUpperCase ''Quarterly'' = toUpperCase ''QUARTERLY''"
    by (simp add: case_conv_defs)
  have t: "spec_tier (Some \<lparr>subscriptionPlan = Some ''3 months''\<rparr>) = Some Quarterly"
    by (simp add: spec_tier_def tier_labels_def case_conv_defs)
  from checkDownloadPermission_table
    [of "Some \<lparr>subscriptionPlan = Some ''3 months''\<rparr>" PDF False "''Quarterly''" "''QUARTERLY''"]
  have a: "checkDownloadPermission (Some \<lparr>subscriptionPlan = Some ''3 months''\<rparr>) PDF False
     = spec_table (Some Quarterly) PDF False"
    unfolding t by (rule conjunct1)
  from checkDownloadPermission_table
    [of "Some \<lparr>subscriptionPlan = Some ''3 months''\<rparr>" VIDEO True "''Quarterly''" "''QUARTERLY''"]
  have b: "checkDownloadPermission (Some \<lparr>subscriptionPlan = Some ''Quarterly''\<rparr>) VIDEO True
     = checkDownloadPermission (Some \<lparr>subscriptionPlan = Some ''QUARTERLY''\<rparr>) VIDEO True"
    using u by blast
  show ?thesis using u a b by blast
qed

text \<open>
  Claim C1 as it is written names \<open>3-month\<close> and \<open>1-year\<close> as aliases. The
  evaluator does not know these spellings: a learner whose plan is
  \<open>3-month\<close> is denied a document, and one whose plan is \<open>1-year\<close> is
  denied a premium video.
\<close>

theorem hyphen_alias_counterexample:
  "\<not> checkDownloadPermission (Some \<lparr>subscriptionPlan = Some ''3-month''\<rparr>) PDF False
   \<and> \<not> checkDownloadPermission (Some \<lparr>subscriptionPlan = Some ''1-year''\<rparr>) VIDEO True"
  by (simp add: checkDownloadPermission_def case_conv_defs)

section \<open>The first token of a Drive URL\<close>

lemma run_is_token:
  assumes "25 \<le> length (takeWhile isIdChar u)"
  shows "tokenAt u 0 (takeWhile isIdChar u)"
proof -
  have "take (length (takeWhile isIdChar u)) u = takeWhile isIdChar u"
    by (metis takeWhile_eq_take)
  moreover have "length (takeWhile isIdChar u) \<le> length u"
    by (rule length_takeWhile_le)
  moreover have "list_all isIdChar (takeWhile isIdChar u)"
    by (simp add: list_all_iff) (metis set_takeWhileD)
  ultimately show ?thesis
    using assms by (simp add: tokenAt_def isToken_def)
qed

lemma token_le_run:
  assumes "tokenAt u 0 t"
  shows "length t \<le> length (takeWhile isIdChar u)"
proof (rule length_takeWhile_less_P_nth)
  show "length t \<le> length u" using assms by (simp add: tokenAt_def)
next
  fix i assume i: "i < length t"
  have "u ! i = t ! i"
    using assms i by (metis tokenAt_def drop0 nth_take)
  moreover have "isIdChar (t ! i)"
    using assms i by (simp add: tokenAt_def isToken_def list_all_length)
  ultimately show "isIdChar (u ! i)" by simp
qed

lemma tokenAt_Cons: "tokenAt (c # cs) (Suc j) t = tokenAt cs j t"
  by (simp add: tokenAt_def)

lemma tokenAt_Nil: "\<not> tokenAt [] i t"
  by (auto simp: tokenAt_def isToken_def)

lemma idMatch_None_iff: "idMatch u = None \<longleftrightarrow> (\<forall>i t. \<not> tokenAt u i t)"
proof (induction u)
  case Nil
  show ?case by (simp add: tokenAt_Nil)
next
  case (Cons c cs)
  show ?case
  proof (cases "25 \<le> length (takeWhile isIdChar (c # cs))")
    case True
    then have "tokenAt (c # cs) 0 (takeWhile isIdChar (c # cs))" by (rule run_is_token)
    moreover have "idMatch (c # cs) \<noteq> None"
      using True by (simp add: Let_def del: takeWhile.simps)
    ultimately show ?thesis by blast
  next
    case False
    then have eq: "idMatch (c # cs) = idMatch cs"
      by (simp add: Let_def del: takeWhile.simps)
    have no0: "\<not> tokenAt (c # cs) 0 t" for t
    proof
      assume t: "tokenAt (c # cs) 0 t"
      from token_le_run [OF t] have "length t \<le> length (takeWhile isIdChar (c # cs))" .
      moreover have "25 \<le> length t" using t by (simp add: tokenAt_def isToken_def)
      ultimately show False using False by linarith
    qed
    have "(\<forall>i t. \<not> tokenAt (c # cs) i t) \<longleftrightarrow> (\<forall>j t. \<not> tokenAt cs j t)"
    proof
      assume a: "\<forall>i t. \<not> tokenAt (c # cs) i t"
      show "\<forall>j t. \<not> tokenAt cs j t"
        using a tokenAt_Cons by blast
    next
      assume a: "\<forall>j t. \<not> tokenAt cs j t"
      show "\<forall>i t. \<not> tokenAt (c # cs) i t"
      proof (intro allI)
        fix i t show "\<not> tokenAt (c # cs) i t"
          by (cases i) (use no0 a tokenAt_Cons in auto)
      qed
    qed
    then show ?thesis using eq Cons.IH by simp
  qed
qed

lemma idMatch_Some_first:
  "idMatch u = Some t \<Longrightarrow>
   \<exists>i. tokenAt u i t \<and> (\<forall>j t'. tokenAt u j t' \<longrightarrow> i \<le> j)
       \<and> (\<forall>t'. tokenAt u i t' \<longrightarrow> length t' \<le> length t)"
proof (induction u)
  case Nil
  then show ?case by simp
next
  case (Cons c cs)
  show ?case
  proof (cases "25 \<le> length (takeWhile isIdChar (c # cs))")
    case True
    then have t: "t = takeWhile isIdChar (c # cs)"
      using Cons.prems by (simp add: Let_def del: takeWhile.simps)
    have "tokenAt (c # cs) 0 t" unfolding t using True by (rule run_is_token)
    moreover have "\<forall>t'. tokenAt (c # cs) 0 t' \<longrightarrow> length t' \<le> length t"
      unfolding t using token_le_run by blast
    ultimately show ?thesis by blast
  next
    case False
    then have "idMatch cs = Some t"
      using Cons.prems by (simp add: Let_def del: takeWhile.simps)
    from Cons.IH [OF this] obtain i where
      i: "tokenAt cs i t" "\<forall>j t'. tokenAt cs j t' \<longrightarrow> i \<le> j"
         "\<forall>t'. tokenAt cs i t' \<longrightarrow> length t' \<le> length t"
      by blast
    have no0: "\<not> tokenAt (c # cs) 0 t'" for t'
    proof
      assume t: "tokenAt (c # cs) 0 t'"
      from token_le_run [OF t] have "length t' \<le> length (takeWhile isIdChar (c # cs))" .
      moreover have "25 \<le> length t'" using t by (simp add: tokenAt_def isToken_def)
      ultimately show False using False by linarith
    qed
    have first: "\<forall>j t'. tokenAt (c # cs) j t' \<longrightarrow> Suc i \<le> j"
    proof (intro allI impI)
      fix j t' assume a: "tokenAt (c # cs) j t'"
      show "Suc i \<le> j"
      proof (cases j)
        case 0
        then show ?thesis using a no0 by blast
      next
        case (Suc k)
        then have "tokenAt cs k t'" using a by (simp add: tokenAt_Cons)
        then show ?thesis using i(2) Suc by auto
      qed
    qed
    have "tokenAt (c # cs) (Suc i) t" using i(1) by (simp add: tokenAt_Cons)
    moreover have "\<forall>t'. tokenAt (c # cs) (Suc i) t' \<longrightarrow> length t' \<le> length t"
      using i(3) by (simp add: tokenAt_Cons)
    ultimately show ?thesis using first by blast
  qed
qed

section \<open>Download links follow the permission\<close>

lemma resolveVideo_download_allowed:
  "downloadUrl (resolveVideo canDownload u) \<noteq> None \<longrightarrow> canDownload"
  by (simp add: resolveVideo_def split: option.splits)

lemma resolveVideo_youtube_no_download:
  "isYouTubeVideo (resolveVideo canDownload u) \<longrightarrow> downloadUrl (resolveVideo canDownload u) = None"
  by (simp add: resolveVideo_def split: option.splits)

lemma videoRenderer_download_allowed:
  "videoRenderer usr c chapterTitle i = Inr v \<and> downloadUrl v \<noteq> None \<longrightarrow>
     checkDownloadPermission usr VIDEO (isUltraContent c)"
  using resolveVideo_download_allowed by (auto simp: videoRenderer_def Let_def split: if_splits)

lemma pdfViewer_download_allowed:
  "pdfDownloadLink (pdfViewer usr c) \<noteq> None \<longrightarrow> checkDownloadPermission usr PDF False"
  by (simp add: pdfViewer_def Let_def)

lemma videoDownloadButton_allowed:
  "videoDownloadButton canDownload v \<noteq> None \<longrightarrow> canDownload"
  by (simp add: videoDownloadButton_def)

lemma pdfDownloadButton_allowed:
  "pdfDownloadButton (pdfViewer usr c) \<noteq> None \<longrightarrow> checkDownloadPermission usr PDF False"
  by (simp add: pdfDownloadButton_def pdfViewer_def Let_def)

text \<open>
  Claim C2. The video renderer's parser fills \<open>downloadUrl\<close> only when the
  permission it was given is an allow, and never on the YouTube branch; the
  video renderer calls it with the learner's permission for this content; the
  PDF viewer fills \<open>pdfDownloadLink\<close> only when the document permission is
  an allow. The links behind the two download buttons are under the same
  permission.
\<close>

theorem download_only_if_allowed:
  "(downloadUrl (resolveVideo canDownload u) \<noteq> None \<longrightarrow> canDownload)
   \<and> (isYouTubeVideo (resolveVideo canDownload u) \<longrightarrow>
        downloadUrl (resolveVideo canDownload u) = None)
   \<and> (videoRenderer usr c chapterTitle i = Inr v \<and> downloadUrl v \<noteq> None \<longrightarrow>
        checkDownloadPermission usr VIDEO (isUltraContent c))
   \<and> (pdfDownloadLink (pdfViewer usr c) \<noteq> None \<longrightarrow> checkDownloadPermission usr PDF False)
   \<and> (videoDownloadButton canDownload w \<noteq> None \<longrightarrow> canDownload)
   \<and> (pdfDownloadButton (pdfViewer usr c) \<noteq> None \<longrightarrow> checkDownloadPermission usr PDF False)"
  using resolveVideo_download_allowed resolveVideo_youtube_no_download
    videoRenderer_download_allowed pdfViewer_download_allowed
    videoDownloadButton_allowed pdfDownloadButton_allowed
  by blast

theorem download_only_if_allowed_witness:
  "videoRenderer yearlyUser driveLesson ''Ch 1'' 0
     = Inr \<lparr>embedUrl = ''https://drive.google.com/file/d/1A2b3C4d5E6f7G8h9I0jK_lMnOpQ-rStU/preview'',
        downloadUrl =
          Some ''https://drive.google.com/u/0/uc?id=1A2b3C4d5E6f7G8h9I0jK_lMnOpQ-rStU&export=download'',
        isDriveVideo = True, isYouTubeVideo = False\<rparr>
   \<and> checkDownloadPermission yearlyUser VIDEO (isUltraContent driveLesson)
   \<and> isYouTubeVideo (resolveVideo True ''https://youtu.be/dQw4w9WgXcQ'')
   \<and> downloadUrl (resolveVideo True ''https://youtu.be/dQw4w9WgXcQ'') = None
   \<and> pdfDownloadLink (pdfViewer yearlyUser driveLesson) \<noteq> None
   \<and> checkDownloadPermission yearlyUser PDF False"
proof -
  let ?v = "\<lparr>embedUrl = ''https://drive.google.com/file/d/1A2b3C4d5E6f7G8h9I0jK_lMnOpQ-rStU/preview'',
        downloadUrl =
          Some ''https://drive.google.com/u/0/uc?id=1A2b3C4d5E6f7G8h9I0jK_lMnOpQ-rStU&export=download'',
        isDriveVideo = True, isYouTubeVideo = False\<rparr>"
  have r: "videoRenderer yearlyUser driveLesson ''Ch 1'' 0 = Inr ?v"
    by code_simp
  have d: "downloadUrl ?v \<noteq> None" by simp
  have y: "isYouTubeVideo (resolveVideo True ''https://youtu.be/dQw4w9WgXcQ'')"
    by code_simp
  have p: "pdfDownloadLink (pdfViewer yearlyUser driveLesson) \<noteq> None"
    by code_simp
  note t = download_only_if_allowed
    [of True "''https://youtu.be/dQw4w9WgXcQ''" yearlyUser driveLesson "''Ch 1''" 0 ?v]
  have "checkDownloadPermission yearlyUser VIDEO (isUltraContent driveLesson)"
    using t r d by blast
  moreover have "downloadUrl (resolveVideo True ''https://youtu.be/dQw4w9WgXcQ'') = None"
    using t y by blast
  moreover have "checkDownloadPermission yearlyUser PDF False"
    using t p by blast
  ultimately show ?thesis using r y p by blast
qed

section \<open>Drive URLs\<close>

text \<open>
  Claim C7 as it is written ends in an Unresolved result for a Drive URL
  without a token. The component has no such outcome: for
  \<open>https://drive.google.com/open\<close> the parser finds no token, and the
  renderer still marks the video as a Drive video and puts the URL, as it was
  given, into the frame.
\<close>

theorem unresolved_drive_counterexample:
  "includes_str ''https://drive.google.com/open'' ''drive.google.com''
   \<and> idMatch ''https://drive.google.com/open'' = None
   \<and> isDriveVideo (resolveVideo True ''https://drive.google.com/open'')
   \<and> embedUrl (resolveVideo True ''https://drive.google.com/open'') = ''https://drive.google.com/open''
   \<and> secureSrc (resolveVideo True ''https://drive.google.com/open'') = ''https://drive.google.com/open''"
  by code_simp

text \<open>
  Claim C7, as amended. For a URL that names the Drive domain, the parser
  finds the first token of the URL: a run of 25 or more word characters or
  hyphens such that no token starts further left and no longer token starts
  at the same place. With that token the embed URL is
  \<open>https://drive.google.com/file/d/<id>/preview\<close>, the download link of
  \<open>getDriveDownloadLink\<close> and, for an entitled learner, of the video
  renderer is \<open>https://drive.google.com/u/0/uc?id=<id>&export=download\<close>.
  When the URL holds no token, \<open>getDriveDownloadLink\<close> returns \<open>null\<close>,
  no download link is offered, and the renderer embeds the URL as it was
  given, as a Drive video. The functions are total; no case raises.
\<close>

theorem drive_resolution:
  assumes "includes_str u ''drive.google.com''"
  shows "(idMatch u = None \<longleftrightarrow> (\<forall>i t. \<not> tokenAt u i t))
    \<and> (idMatch u = None \<longrightarrow>
          resolveVideo canDownload u
            = \<lparr>embedUrl = u, downloadUrl = None, isDriveVideo = True, isYouTubeVideo = False\<rparr>
          \<and> secureSrc (resolveVideo canDownload u) = u
          \<and> getDriveDownloadLink u = None)
    \<and> (\<forall>t. idMatch u = Some t \<longrightarrow>
          (\<exists>i. tokenAt u i t \<and> (\<forall>j t'. tokenAt u j t' \<longrightarrow> i \<le> j)
               \<and> (\<forall>t'. tokenAt u i t' \<longrightarrow> length t' \<le> length t))
          \<and> embedUrl (resolveVideo canDownload u) = ''https://drive.google.com/file/d/'' @ t @ ''/preview''
          \<and> downloadUrl (resolveVideo canDownload u)
              = (if canDownload
                 then Some (''https://drive.google.com/u/0/uc?id='' @ t @ ''&export=download'')
                 else None)
          \<and> getDriveDownloadLink u
              = Some (''https://drive.google.com/u/0/uc?id='' @ t @ ''&export=download''))"
proof (intro conjI)
  show "idMatch u = None \<longleftrightarrow> (\<forall>i t. \<not> tokenAt u i t)" by (rule idMatch_None_iff)
next
  show "idMatch u = None \<longrightarrow>
          resolveVideo canDownload u
            = \<lparr>embedUrl = u, downloadUrl = None, isDriveVideo = True, isYouTubeVideo = False\<rparr>
          \<and> secureSrc (resolveVideo canDownload u) = u
          \<and> getDriveDownloadLink u = None"
    using assms by (simp add: resolveVideo_def getDriveDownloadLink_def secureSrc_def)
next
  show "\<forall>t. idMatch u = Some t \<longrightarrow>
          (\<exists>i. tokenAt u i t \<and> (\<forall>j t'. tokenAt u j t' \<longrightarrow> i \<le> j)
               \<and> (\<forall>t'. tokenAt u i t' \<longrightarrow> length t' \<le> length t))
          \<and> embedUrl (resolveVideo canDownload u) = ''https://drive.google.com/file/d/'' @ t @ ''/preview''
          \<and> downloadUrl (resolveVideo canDownload u)
              = (if canDownload
                 then Some (''https://drive.google.com/u/0/uc?id='' @ t @ ''&export=download'')
                 else None)
          \<and> getDriveDownloadLink u
              = Some (''https://drive.google.com/u/0/uc?id='' @ t @ ''&export=download'')"
  proof (intro allI impI)
    fix t assume t: "idMatch u = Some t"
    from idMatch_Some_first [OF t]
    have "\<exists>i. tokenAt u i t \<and> (\<forall>j t'. tokenAt u j t' \<longrightarrow> i \<le> j)
               \<and> (\<forall>t'. tokenAt u i t' \<longrightarrow> length t' \<le> length t)" .
    then show "(\<exists>i. tokenAt u i t \<and> (\<forall>j t'. tokenAt u j t' \<longrightarrow> i \<le> j)
               \<and> (\<forall>t'. tokenAt u i t' \<longrightarrow> length t' \<le> length t))
          \<and> embedUrl (resolveVideo canDownload u) = ''https://drive.google.com/file/d/'' @ t @ ''/preview''
          \<and> downloadUrl (resolveVideo canDownload u)
              = (if canDownload
                 then Some (''https://drive.google.com/u/0/uc?id='' @ t @ ''&export=download'')
                 else None)
          \<and> getDriveDownloadLink u
              = Some (''https://drive.google.com/u/0/uc?id='' @ t @ ''&export=download'')"
      using assms t by (simp add: resolveVideo_def getDriveDownloadLink_def)
  qed
qed

theorem drive_resolution_witness:
  "includes_str ''https://drive.google.com/file/d/1A2b3C4d5E6f7G8h9I0jK_lMnOpQ-rStU/view'' ''drive.google.com''
   \<and> idMatch ''https://drive.google.com/file/d/1A2b3C4d5E6f7G8h9I0jK_lMnOpQ-rStU/view''
       = Some ''1A2b3C4d5E6f7G8h9I0jK_lMnOpQ-rStU''
   \<and> embedUrl (resolveVideo True ''https://drive.google.com/file/d/1A2b3C4d5E6f7G8h9I0jK_lMnOpQ-rStU/view'')
       = ''https://drive.google.com/file/d/1A2b3C4d5E6f7G8h9I0jK_lMnOpQ-rStU/preview''
   \<and> getDriveDownloadLink ''https://drive.google.com/file/d/1A2b3C4d5E6f7G8h9I0jK_lMnOpQ-rStU/view''
       = Some ''https://drive.google.com/u/0/uc?id=1A2b3C4d5E6f7G8h9I0jK_lMnOpQ-rStU&export=download''
   \<and> includes_str ''https://drive.google.com/open'' ''drive.google.com''
   \<and> idMatch ''https://drive.google.com/open'' = None
   \<and> getDriveDownloadLink ''https://drive.google.com/open'' = None
   \<and> embedUrl (resolveVideo True ''https://drive.google.com/open'') = ''https://drive.google.com/open''"
proof -
  let ?u = "''https://drive.google.com/file/d/1A2b3C4d5E6f7G8h9I0jK_lMnOpQ-rStU/view''"
  let ?w = "''https://drive.google.com/open''"
  have iu: "includes_str ?u ''drive.google.com''" by code_simp
  have mu: "idMatch ?u = Some ''1A2b3C4d5E6f7G8h9I0jK_lMnOpQ-rStU''" by code_simp
  have iw: "includes_str ?w ''drive.google.com''" by code_simp
  have mw: "idMatch ?w = None" by code_simp
  from drive_resolution [OF iu, of True] mu
  have a: "embedUrl (resolveVideo True ?u)
        = ''https://drive.google.com/file/d/'' @ ''1A2b3C4d5E6f7G8h9I0jK_lMnOpQ-rStU'' @ ''/preview''"
    and b: "getDriveDownloadLink ?u
        = Some (''https://drive.google.com/u/0/uc?id='' @ ''1A2b3C4d5E6f7G8h9I0jK_lMnOpQ-rStU''
                  @ ''&export=download'')"
    by blast+
  from drive_resolution [OF iw, of True] mw
  have c: "getDriveDownloadLink ?w = None"
    and d: "resolveVideo True ?w
        = \<lparr>embedUrl = ?w, downloadUrl = None, isDriveVideo = True, isYouTubeVideo = False\<rparr>"
    by blast+
  have e: "embedUrl (resolveVideo True ?w) = ?w" unfolding d by simp
  show ?thesis using iu mu iw mw a b c e by simp
qed

section \<open>Documents and the premium flag\<close>

lemma checkDownloadPermission_PDF_flag:
  "checkDownloadPermission usr PDF ultra = checkDownloadPermission usr PDF False"
  by (simp add: checkDownloadPermission_def Let_def split: option.splits)

lemma pdf_types_reach_pdfViewer:
  "ctype c = ''PDF_FREE'' \<or> ctype c = ''PDF_PREMIUM'' \<Longrightarrow> lessonRenderer False (Some c) = Inr PdfView"
  by (auto simp: lessonRenderer_def isVideoLesson_def isPdfLesson_def)

lemma lessonRenderer_ignores_premium:
  "ctype c' = ctype c \<Longrightarrow> content c' = content c \<Longrightarrow> videoPlaylist c' = videoPlaylist c
   \<Longrightarrow> mcqData c' = mcqData c
   \<Longrightarrow> lessonRenderer loading (Some c') = lessonRenderer loading (Some c)"
  by (simp add: lessonRenderer_def isVideoLesson_def isPdfLesson_def)

text \<open>
  Claim C10. The PDF viewer asks for the document permission with the premium
  flag \<open>false\<close>, and the evaluator does not read the flag for documents:
  what the viewer decides and offers depends on the learner and the document's
  URL only. Lessons of type \<open>PDF_FREE\<close> and \<open>PDF_PREMIUM\<close> reach the PDF
  viewer, and which renderer a lesson reaches does not depend on its title or
  tags. A quarterly learner may download whatever the viewer shows.
\<close>

theorem pdf_download_ignores_premium:
  "canDownloadPdf (pdfViewer usr c) = checkDownloadPermission usr PDF False
   \<and> checkDownloadPermission usr PDF ultra = checkDownloadPermission usr PDF False
   \<and> (content c' = content c \<longrightarrow> pdfViewer usr c' = pdfViewer usr c)
   \<and> (ctype c = ''PDF_FREE'' \<or> ctype c = ''PDF_PREMIUM'' \<longrightarrow>
        lessonRenderer False (Some c) = Inr PdfView)
   \<and> (ctype c' = ctype c \<and> content c' = content c \<and> videoPlaylist c' = videoPlaylist c
        \<and> mcqData c' = mcqData c \<longrightarrow>
        lessonRenderer loading (Some c') = lessonRenderer loading (Some c))
   \<and> (spec_tier usr = Some Quarterly \<longrightarrow> canDownloadPdf (pdfViewer usr c))"
proof (intro conjI)
  show "canDownloadPdf (pdfViewer usr c) = checkDownloadPermission usr PDF False"
    by (simp add: pdfViewer_def Let_def)
  show "checkDownloadPermission usr PDF ultra = checkDownloadPermission usr PDF False"
    by (rule checkDownloadPermission_PDF_flag)
  show "content c' = content c \<longrightarrow> pdfViewer usr c' = pdfViewer usr c"
    by (simp add: pdfViewer_def Let_def)
  show "ctype c = ''PDF_FREE'' \<or> ctype c = ''PDF_PREMIUM'' \<longrightarrow>
        lessonRenderer False (Some c) = Inr PdfView"
    using pdf_types_reach_pdfViewer by blast
  show "ctype c' = ctype c \<and> content c' = content c \<and> videoPlaylist c' = videoPlaylist c
        \<and> mcqData c' = mcqData c \<longrightarrow>
        lessonRenderer loading (Some c') = lessonRenderer loading (Some c)"
    using lessonRenderer_ignores_premium by blast
  show "spec_tier usr = Some Quarterly \<longrightarrow> canDownloadPdf (pdfViewer usr c)"
  proof
    assume q: "spec_tier usr = Some Quarterly"
    have "checkDownloadPermission usr PDF False = spec_table (spec_tier usr) PDF False"
      by (cases usr)
        (auto simp: checkDownloadPermission_def spec_tier_def tier_labels_def Let_def
          split: option.splits)
    then show "canDownloadPdf (pdfViewer usr c)"
      using q by (simp add: pdfViewer_def Let_def)
  qed
qed

theorem pdf_download_ignores_premium_witness:
  "content premiumPdfLesson = content freePdfLesson
   \<and> pdfViewer quarterlyUser premiumPdfLesson = pdfViewer quarterlyUser freePdfLesson
   \<and> ctype premiumPdfLesson = ''PDF_PREMIUM''
   \<and> lessonRenderer False (Some premiumPdfLesson) = Inr PdfView
   \<and> spec_tier quarterlyUser = Some Quarterly
   \<and> isUltraContent premiumPdfLesson
   \<and> canDownloadPdf (pdfViewer quarterlyUser premiumPdfLesson)"
proof -
  have a: "content premiumPdfLesson = content freePdfLesson"
    by (simp add: premiumPdfLesson_def freePdfLesson_def)
  have b: "ctype premiumPdfLesson = ''PDF_PREMIUM''"
    by (simp add: premiumPdfLesson_def)
  have c: "spec_tier quarterlyUser = Some Quarterly"
    by (simp add: quarterlyUser_def spec_tier_def tier_labels_def case_conv_defs)
  have d: "isUltraContent premiumPdfLesson"
    by (simp add: isUltraContent_def premiumPdfLesson_def)
  note t = pdf_download_ignores_premium
    [of quarterlyUser premiumPdfLesson True freePdfLesson False]
  note t' = pdf_download_ignores_premium
    [of quarterlyUser freePdfLesson True premiumPdfLesson False]
  have "pdfViewer quarterlyUser premiumPdfLesson = pdfViewer quarterlyUser freePdfLesson"
    using t' a by simp
  moreover have "lessonRenderer False (Some premiumPdfLesson) = Inr PdfView"
    using t b by blast
  moreover have "canDownloadPdf (pdfViewer quarterlyUser premiumPdfLesson)"
    using t c by blast
  ultimately show ?thesis using a b c d by blast
qed

section \<open>The submission gate\<close>

lemma Object_keys_set: "set (Object_keys m) = dom (map_of m)"
  by (simp add: Object_keys_def dom_map_of_conv_image_fst)

lemma Object_keys_distinct: "distinct (Object_keys m)"
  by (simp add: Object_keys_def)

lemma Object_keys_length: "length (Object_keys m) = card (dom (map_of m))"
  using distinct_card [OF Object_keys_distinct, of m] by (simp add: Object_keys_set)

text \<open>
  Claim C4. \<open>canSubmit\<close> holds exactly when the number of answered
  questions is at least the smaller of 50 and the number of questions, and it
  does not depend on the batch that is displayed.
\<close>

theorem canSubmit_iff:
  "canSubmit s = (min 50 (length (localMcqData s)) \<le> card (dom (map_of (mcqState s))))
   \<and> canSubmit (s\<lparr>batchIndex := b\<rparr>) = canSubmit s"
  by (simp add: canSubmit_def attemptedCount_def Object_keys_length)

theorem canSubmit_iff_witness:
  "canSubmit (initialSession\<lparr>localMcqData := [q0, q1], mcqState := [(1, 0), (0, 1)], batchIndex := 3\<rparr>)
   \<and> \<not> canSubmit (initialSession\<lparr>localMcqData := [q0, q1], mcqState := [(1, 0)]\<rparr>)"
proof -
  have d2: "dom (map_of [(Suc 0, 0::nat), (0::nat, Suc 0)]) = {0, Suc 0}"
    by auto
  have d1: "dom (map_of [(Suc 0, 0::nat)]) = {Suc 0}"
    by auto
  have "canSubmit (initialSession\<lparr>localMcqData := [q0, q1], mcqState := [(1, 0), (0, 1)]\<rparr>)"
    unfolding canSubmit_iff [THEN conjunct1] by (simp add: d2)
  then have "canSubmit (initialSession\<lparr>localMcqData := [q0, q1], mcqState := [(1, 0), (0, 1)], batchIndex := 3\<rparr>)"
    using canSubmit_iff [of "initialSession\<lparr>localMcqData := [q0, q1], mcqState := [(1, 0), (0, 1)]\<rparr>" 3]
    by simp
  moreover have "\<not> canSubmit (initialSession\<lparr>localMcqData := [q0, q1], mcqState := [(1, 0)]\<rparr>)"
    unfolding canSubmit_iff [THEN conjunct1] by (simp add: d1)
  ultimately show ?thesis by blast
qed

section \<open>The session timer by phase\<close>

text \<open>
  Claim C8 as it is written says that the counter never moves while Loading.
  The timer does not read the \<open>loading\<close> prop: in the state the component
  is mounted with, shown as the spinner, a tick adds a second.
\<close>

theorem tick_counterexample:
  "phaseOf True initialSession = Loading
   \<and> sessionTime (tick initialSession) = sessionTime initialSession + 1"
  by (simp add: phaseOf_def tick_def timerRunning_def initialSession_def)

text \<open>
  Claim C8, as amended. A tick adds exactly one second while the session is
  InProgress and changes nothing during AwaitingResumeChoice, ConfirmingSubmit
  and Completed; while Loading it adds a second unless the results, the
  submit modal or the resume prompt is up.
\<close>

theorem tick_by_phase:
  "(phaseOf loading s = InProgress \<longrightarrow> tick s = s\<lparr>sessionTime := sessionTime s + 1\<rparr>)
   \<and> (phaseOf loading s = AwaitingResumeChoice \<or> phaseOf loading s = ConfirmingSubmit
        \<or> phaseOf loading s = Completed \<longrightarrow> tick s = s)
   \<and> (phaseOf loading s = Loading \<longrightarrow>
        tick s = (if showResults s \<or> showSubmitModal s \<or> showResumePrompt s then s
                  else s\<lparr>sessionTime := sessionTime s + 1\<rparr>))"
  by (auto simp: tick_def timerRunning_def phaseOf_def split: if_splits)

theorem tick_by_phase_witness:
  "phaseOf False initialSession = InProgress
   \<and> sessionTime (tick initialSession) = 1
   \<and> phaseOf False (initialSession\<lparr>showSubmitModal := True\<rparr>) = ConfirmingSubmit
   \<and> sessionTime (tick (initialSession\<lparr>showSubmitModal := True\<rparr>)) = 0
   \<and> phaseOf True initialSession = Loading
   \<and> tick initialSession = initialSession\<lparr>sessionTime := 1\<rparr>"
proof -
  have a: "phaseOf False initialSession = InProgress"
    by (simp add: phaseOf_def initialSession_def)
  have b: "phaseOf False (initialSession\<lparr>showSubmitModal := True\<rparr>) = ConfirmingSubmit"
    by (simp add: phaseOf_def initialSession_def)
  have c: "phaseOf True initialSession = Loading"
    by (simp add: phaseOf_def)
  have z: "sessionTime initialSession = 0" "\<not> showResults initialSession"
    "\<not> showSubmitModal initialSession" "\<not> showResumePrompt initialSession"
    by (simp_all add: initialSession_def)
  have "tick initialSession = initialSession\<lparr>sessionTime := sessionTime initialSession + 1\<rparr>"
    using tick_by_phase [of False initialSession] a by blast
  then have d: "tick initialSession = initialSession\<lparr>sessionTime := 1\<rparr>"
    using z by simp
  have e: "tick (initialSession\<lparr>showSubmitModal := True\<rparr>) = initialSession\<lparr>showSubmitModal := True\<rparr>"
    using tick_by_phase [of False "initialSession\<lparr>showSubmitModal := True\<rparr>"] b by blast
  have f: "tick initialSession = initialSession\<lparr>sessionTime := 1\<rparr>"
    using tick_by_phase [of True initialSession] c z by simp
  show ?thesis using a b c d e f z by simp
qed

section \<open>Scoring\<close>

lemma scoreFrom_in_range:
  "\<forall>k \<in> set ks. k < length qs \<Longrightarrow>
   scoreFrom ks m qs acc
     = Inr (acc + length (filter (\<lambda>k. map_of m k = Some (correctAnswer (qs ! k))) ks))"
  by (induction ks arbitrary: acc) simp_all

lemma scoreFrom_out_of_range:
  "\<exists>k \<in> set ks. \<not> k < length qs \<Longrightarrow> scoreFrom ks m qs acc = Inl TypeError"
  by (induction ks arbitrary: acc) auto

lemma score_in_range:
  assumes "\<forall>k \<in> dom (map_of m). k < length qs"
  shows "score m qs = Inr (card (correctKeys m qs))"
proof -
  let ?P = "\<lambda>k. map_of m k = Some (correctAnswer (qs ! k))"
  have "score m qs = Inr (length (filter ?P (Object_keys m)))"
    using assms by (simp add: score_def scoreFrom_in_range Object_keys_set)
  also have "length (filter ?P (Object_keys m)) = card ({k. ?P k} \<inter> set (Object_keys m))"
    using Object_keys_distinct by (simp add: distinct_length_filter)
  also have "{k. ?P k} \<inter> set (Object_keys m) = correctKeys m qs"
    by (auto simp: correctKeys_def Object_keys_set)
  finally show ?thesis .
qed

lemma score_out_of_range:
  assumes "\<exists>k \<in> dom (map_of m). \<not> k < length qs"
  shows "score m qs = Inl TypeError"
  using assms by (simp add: score_def scoreFrom_out_of_range Object_keys_set)

lemma Object_keys_cong:
  assumes "map_of m = map_of m'"
  shows "Object_keys m = Object_keys m'"
proof -
  have "set (map fst m) = set (map fst m')"
    using assms by (metis dom_map_of_conv_image_fst set_map)
  then have "set (Object_keys m) = set (Object_keys m')"
    by (simp add: Object_keys_def)
  moreover have "sorted (Object_keys m)" "sorted (Object_keys m')"
    by (simp_all add: Object_keys_def)
  moreover have "distinct (Object_keys m)" "distinct (Object_keys m')"
    by (simp_all add: Object_keys_def)
  ultimately show ?thesis
    by (simp add: sorted_distinct_set_unique)
qed

lemma scoreFrom_cong:
  "map_of m = map_of m' \<Longrightarrow> scoreFrom ks m qs acc = scoreFrom ks m' qs acc"
  by (induction ks arbitrary: acc) simp_all

lemma score_cong:
  "map_of m = map_of m' \<Longrightarrow> score m qs = score m' qs"
  by (simp add: score_def Object_keys_cong [of m m'] scoreFrom_cong [of m m'])

lemma correctKeys_le: "card (correctKeys m qs) \<le> card (dom (map_of m))"
  by (rule card_mono) (auto simp: correctKeys_def finite_dom_map_of)

lemma scoreFrom_unanswered:
  "i \<notin> set ks \<Longrightarrow> scoreFrom ks m (qs[i := q]) acc = scoreFrom ks m qs acc"
  by (induction ks arbitrary: acc) auto

lemma score_unanswered:
  "map_of m i = None \<Longrightarrow> score m (qs[i := q]) = score m qs"
  by (simp add: score_def scoreFrom_unanswered Object_keys_set domIff)

lemma clickOption_fields [simp]:
  "batchIndex (clickOption l v s) = batchIndex s"
  "localMcqData (clickOption l v s) = localMcqData s"
  "showResults (clickOption l v s) = showResults s"
  by (simp_all add: clickOption_def Let_def)

lemma currentBatchData_clickOption [simp]:
  "currentBatchData (clickOption l v s) = currentBatchData s"
  by (simp add: currentBatchData_def)

lemma clickOption_map:
  "map_of (mcqState (clickOption l v s))
     = (if clickOption l v s \<noteq> s then (map_of (mcqState s))(batchIndex s * BATCH_SIZE + l \<mapsto> v)
        else map_of (mcqState s))"
proof (cases "l < length (currentBatchData s)
         \<and> v < length (options (currentBatchData s ! l))
         \<and> map_of (mcqState s) (batchIndex s * BATCH_SIZE + l) = None \<and> \<not> showResults s")
  case True
  let ?m = "AList.update (batchIndex s * BATCH_SIZE + l) v (mcqState s)"
  have c: "clickOption l v s = s\<lparr>mcqState := ?m\<rparr>"
    using True by (simp add: clickOption_def Let_def)
  have "map_of ?m (batchIndex s * BATCH_SIZE + l) = Some v"
    by (simp add: update_conv')
  then have "?m \<noteq> mcqState s" using True by auto
  then have "clickOption l v s \<noteq> s" unfolding c
    by (metis mcq_session.select_convs(1) mcq_session.surjective mcq_session.update_convs(1))
  then show ?thesis unfolding c by (simp add: update_conv')
next
  case False
  then have "clickOption l v s = s" by (auto simp: clickOption_def Let_def)
  then show ?thesis by simp
qed

lemma clickOption_effective_iff:
  "clickOption l v s \<noteq> s \<longleftrightarrow>
     l < length (currentBatchData s) \<and> v < length (options (currentBatchData s ! l))
     \<and> map_of (mcqState s) (batchIndex s * BATCH_SIZE + l) = None \<and> \<not> showResults s"
proof
  assume "clickOption l v s \<noteq> s"
  then show "l < length (currentBatchData s) \<and> v < length (options (currentBatchData s ! l))
     \<and> map_of (mcqState s) (batchIndex s * BATCH_SIZE + l) = None \<and> \<not> showResults s"
    by (auto simp: clickOption_def Let_def split: if_splits)
next
  assume g: "l < length (currentBatchData s) \<and> v < length (options (currentBatchData s ! l))
     \<and> map_of (mcqState s) (batchIndex s * BATCH_SIZE + l) = None \<and> \<not> showResults s"
  let ?m = "AList.update (batchIndex s * BATCH_SIZE + l) v (mcqState s)"
  have c: "clickOption l v s = s\<lparr>mcqState := ?m\<rparr>"
    using g by (simp add: clickOption_def Let_def)
  have "map_of ?m (batchIndex s * BATCH_SIZE + l) = Some v"
    by (simp add: update_conv')
  then have "mcqState (clickOption l v s) \<noteq> mcqState s" unfolding c using g by auto
  then show "clickOption l v s \<noteq> s" by auto
qed

lemma clickOption_commute:
  assumes "l \<noteq> l'"
  shows "map_of (mcqState (clickOption l v (clickOption l' v' s)))
       = map_of (mcqState (clickOption l' v' (clickOption l v s)))"
proof -
  let ?i = "batchIndex s * BATCH_SIZE + l" and ?i' = "batchIndex s * BATCH_SIZE + l'"
  have ne: "?i \<noteq> ?i'" using assms by simp
  have e1: "clickOption l v (clickOption l' v' s) \<noteq> clickOption l' v' s \<longleftrightarrow> clickOption l v s \<noteq> s"
    unfolding clickOption_effective_iff using ne
    by (simp add: clickOption_map)
  have e2: "clickOption l' v' (clickOption l v s) \<noteq> clickOption l v s \<longleftrightarrow> clickOption l' v' s \<noteq> s"
    unfolding clickOption_effective_iff using ne
    by (simp add: clickOption_map)
  show ?thesis
    unfolding clickOption_map [of l v "clickOption l' v' s"]
      clickOption_map [of l' v' "clickOption l v s"] e1 e2
    using ne by (auto simp: clickOption_map fun_upd_twist)
qed

lemma currentBatchData_nth:
  assumes "l < length (currentBatchData s)"
  shows "batchIndex s * BATCH_SIZE + l < length (localMcqData s)"
    and "currentBatchData s ! l = localMcqData s ! (batchIndex s * BATCH_SIZE + l)"
  using assms by (auto simp: currentBatchData_def)

lemma score_Inr_in_range:
  assumes "score m qs = Inr n"
  shows "\<forall>k \<in> dom (map_of m). k < length qs" and "n = card (correctKeys m qs)"
proof -
  show r: "\<forall>k \<in> dom (map_of m). k < length qs"
  proof (rule ccontr)
    assume "\<not> (\<forall>k \<in> dom (map_of m). k < length qs)"
    then have "score m qs = Inl TypeError" by (intro score_out_of_range) blast
    then show False using assms by simp
  qed
  show "n = card (correctKeys m qs)"
    using score_in_range [OF r] assms by simp
qed

lemma score_after_click:
  assumes sc: "score (mcqState s) (localMcqData s) = Inr n"
    and eff: "clickOption l v s \<noteq> s"
  shows "score (mcqState (clickOption l v s)) (localMcqData s)
       = Inr (n + (if v = correctAnswer (currentBatchData s ! l) then 1 else 0))"
proof -
  let ?m = "mcqState s" and ?m' = "mcqState (clickOption l v s)" and ?qs = "localMcqData s"
  let ?i = "batchIndex s * BATCH_SIZE + l"
  from eff have g: "l < length (currentBatchData s)" "map_of ?m ?i = None"
    by (simp_all add: clickOption_effective_iff)
  have i: "?i < length ?qs" and q: "currentBatchData s ! l = ?qs ! ?i"
    using currentBatchData_nth [OF g(1)] by simp_all
  have m': "map_of ?m' = (map_of ?m)(?i \<mapsto> v)"
    using eff by (simp add: clickOption_map)
  from score_Inr_in_range [OF sc]
  have r: "\<forall>k \<in> dom (map_of ?m). k < length ?qs" and n: "n = card (correctKeys ?m ?qs)"
    by simp_all
  have r': "\<forall>k \<in> dom (map_of ?m'). k < length ?qs"
    using r i by (auto simp: m')
  have fin: "finite (correctKeys ?m ?qs)"
    by (rule finite_subset [of _ "dom (map_of ?m)"]) (auto simp: correctKeys_def finite_dom_map_of)
  have notin: "?i \<notin> correctKeys ?m ?qs"
    using g(2) by (auto simp: correctKeys_def)
  have ck: "correctKeys ?m' ?qs
      = (if v = correctAnswer (?qs ! ?i) then insert ?i (correctKeys ?m ?qs) else correctKeys ?m ?qs)"
    using g(2) by (auto simp: correctKeys_def m')
  have "card (correctKeys ?m' ?qs) = n + (if v = correctAnswer (?qs ! ?i) then 1 else 0)"
    unfolding ck n using fin notin by simp
  then show ?thesis
    using score_in_range [OF r'] q by simp
qed

text \<open>
  Claim C5. For an answer map whose keys are positions of the question list,
  the score is the number of answered positions whose selected option is the
  question's correct option. A question without an answer has no influence on
  the score, whatever its correct option is. The score is a function of the
  final answer map: two records of the same map give the same score, and two
  clicks on different questions give the same score in either order.
\<close>

theorem score_counts_correct_answers:
  "((\<forall>k \<in> dom (map_of m). k < length qs) \<longrightarrow>
      score m qs = Inr (card {k \<in> dom (map_of m). map_of m k = Some (correctAnswer (qs ! k))}))
   \<and> (map_of m i = None \<longrightarrow> score m (qs[i := q]) = score m qs)
   \<and> (map_of m = map_of m' \<longrightarrow> score m qs = score m' qs)
   \<and> (l \<noteq> l' \<longrightarrow>
        score (mcqState (clickOption l v (clickOption l' v' s))) qs
        = score (mcqState (clickOption l' v' (clickOption l v s))) qs)"
proof (intro conjI impI)
  assume "\<forall>k \<in> dom (map_of m). k < length qs"
  then show "score m qs = Inr (card {k \<in> dom (map_of m). map_of m k = Some (correctAnswer (qs ! k))})"
    using score_in_range [of m qs] by (simp add: correctKeys_def)
next
  assume "map_of m i = None"
  then show "score m (qs[i := q]) = score m qs" by (rule score_unanswered)
next
  assume "map_of m = map_of m'"
  then show "score m qs = score m' qs" by (rule score_cong)
next
  assume "l \<noteq> l'"
  then show "score (mcqState (clickOption l v (clickOption l' v' s))) qs
        = score (mcqState (clickOption l' v' (clickOption l v s))) qs"
    by (intro score_cong clickOption_commute)
qed

theorem score_counts_correct_answers_witness:
  "score [(1, 1), (0, 1)] [q0, q1]
     = Inr (card {k \<in> dom (map_of [(1::nat, 1::nat), (0, 1)]).
              map_of [(1, 1), (0, 1)] k = Some (correctAnswer ([q0, q1] ! k))})
   \<and> score [(1, 1), (0, 1)] [q0, q1] = Inr 1
   \<and> map_of [(1::nat, 1::nat)] 0 = None
   \<and> score [(1, 1)] ([q0, q1][0 := q1]) = score [(1, 1)] [q0, q1]
   \<and> map_of [(1::nat, 1::nat), (0, 1)] = map_of [(0, 1), (1, 1)]
   \<and> score [(1, 1), (0, 1)] [q0, q1] = score [(0, 1), (1, 1)] [q0, q1]
   \<and> score (mcqState (clickOption 0 1 (clickOption 1 1 shuffledSession))) [q1, q0]
     = score (mcqState (clickOption 1 1 (clickOption 0 1 shuffledSession))) [q1, q0]"
proof -
  let ?m = "[(1::nat, 1::nat), (0, 1)]"
  have r: "\<forall>k \<in> dom (map_of ?m). k < length [q0, q1]" by auto
  have a: "score ?m [q0, q1]
     = Inr (card {k \<in> dom (map_of ?m). map_of ?m k = Some (correctAnswer ([q0, q1] ! k))})"
    using score_counts_correct_answers [of ?m "[q0, q1]"] r by blast
  have s: "{k \<in> dom (map_of ?m). map_of ?m k = Some (correctAnswer ([q0, q1] ! k))} = {1}"
    by (auto simp: q0_def q1_def split: if_splits)
  have b: "score ?m [q0, q1] = Inr 1" unfolding a s by simp
  have n: "map_of [(1::nat, 1::nat)] 0 = None" by simp
  have c: "score [(1, 1)] ([q0, q1][0 := q1]) = score [(1, 1)] [q0, q1]"
    using score_counts_correct_answers [of "[(1, 1)]" "[q0, q1]" 0 q1] n by blast
  have e: "map_of ?m = map_of [(0, 1), (1, 1)]" by auto
  have d: "score ?m [q0, q1] = score [(0, 1), (1, 1)] [q0, q1]"
    using score_counts_correct_answers [of ?m "[q0, q1]" 0 q1 "[(0, 1), (1, 1)]"] e by blast
  have ne: "(0::nat) \<noteq> 1" by simp
  have f: "score (mcqState (clickOption 0 1 (clickOption 1 1 shuffledSession))) [q1, q0]
     = score (mcqState (clickOption 1 1 (clickOption 0 1 shuffledSession))) [q1, q0]"
    using score_counts_correct_answers [of "[]" "[q1, q0]" 0 q1 "[]" 0 1 1 1 shuffledSession] ne
    by blast
  show ?thesis by (intro conjI a b n c e d f)
qed

section \<open>What an answer is keyed by\<close>

text \<open>
  Claim C3 as it is written has the answers keyed by the question's index in
  the original pool, so that the display order would not matter for the score.
  With the pool \<open>[q0, q1]\<close> shown in the order \<open>[q1, q0]\<close>, the answer to
  the first question on screen, which is \<open>q1\<close> of pool index 1, is stored
  under key 0; this answer map scores 1 against the order shown and 0 against
  the order of the pool.
\<close>

theorem display_order_counterexample:
  "mset [q1, q0] = mset [q0, q1]
   \<and> currentBatchData shuffledSession ! 0 = q1
   \<and> mcqState (clickOption 0 1 shuffledSession) = [(0, 1)]
   \<and> score [(0, 1)] [q1, q0] = Inr 1
   \<and> score [(0, 1)] [q0, q1] = Inr 0"
  by (simp add: shuffledSession_def initialSession_def currentBatchData_def BATCH_SIZE_def
      clickOption_def Let_def q0_def q1_def score_def Object_keys_def)

text \<open>
  Claim C3, as amended. An answer is keyed by the position of its question in
  the session's question list \<open>localMcqData\<close>, which is the batch offset
  plus the position in the displayed batch, and the score compares it with the
  question at that position of the same list: a click that is accepted stores
  the option under that key, leaves the list as it is, and raises the score by
  one exactly when the option is the displayed question's correct option.
\<close>

theorem answers_keyed_by_session_position:
  "(l < length (currentBatchData s) \<longrightarrow>
      batchIndex s * BATCH_SIZE + l < length (localMcqData s)
      \<and> currentBatchData s ! l = localMcqData s ! (batchIndex s * BATCH_SIZE + l))
   \<and> (clickOption l v s \<noteq> s \<longrightarrow>
        map_of (mcqState (clickOption l v s))
          = (map_of (mcqState s))(batchIndex s * BATCH_SIZE + l \<mapsto> v)
        \<and> localMcqData (clickOption l v s) = localMcqData s)
   \<and> (score (mcqState s) (localMcqData s) = Inr n \<and> clickOption l v s \<noteq> s \<longrightarrow>
        score (mcqState (clickOption l v s)) (localMcqData (clickOption l v s))
          = Inr (n + (if v = correctAnswer (currentBatchData s ! l) then 1 else 0)))"
proof (intro conjI impI)
  assume "l < length (currentBatchData s)"
  then show "batchIndex s * BATCH_SIZE + l < length (localMcqData s)"
    and "currentBatchData s ! l = localMcqData s ! (batchIndex s * BATCH_SIZE + l)"
    by (rule currentBatchData_nth)+
next
  assume "clickOption l v s \<noteq> s"
  then show "map_of (mcqState (clickOption l v s))
          = (map_of (mcqState s))(batchIndex s * BATCH_SIZE + l \<mapsto> v)"
    by (simp add: clickOption_map)
next
  show "localMcqData (clickOption l v s) = localMcqData s" by simp
next
  assume "score (mcqState s) (localMcqData s) = Inr n \<and> clickOption l v s \<noteq> s"
  then show "score (mcqState (clickOption l v s)) (localMcqData (clickOption l v s))
          = Inr (n + (if v = correctAnswer (currentBatchData s ! l) then 1 else 0))"
    using score_after_click [of s n l v] by simp
qed

theorem answers_keyed_by_session_position_witness:
  "0 < length (currentBatchData shuffledSession)
   \<and> currentBatchData shuffledSession ! 0 = localMcqData shuffledSession ! (batchIndex shuffledSession * BATCH_SIZE + 0)
   \<and> clickOption 0 1 shuffledSession \<noteq> shuffledSession
   \<and> map_of (mcqState (clickOption 0 1 shuffledSession)) = (map_of (mcqState shuffledSession))(batchIndex shuffledSession * BATCH_SIZE + 0 \<mapsto> 1)
   \<and> score (mcqState shuffledSession) (localMcqData shuffledSession) = Inr 0
   \<and> score (mcqState (clickOption 0 1 shuffledSession)) (localMcqData (clickOption 0 1 shuffledSession)) = Inr 1"
proof -
  have a: "0 < length (currentBatchData shuffledSession)"
    by (simp add: shuffledSession_def initialSession_def currentBatchData_def BATCH_SIZE_def)
  have b: "clickOption 0 1 shuffledSession \<noteq> shuffledSession"
    unfolding clickOption_effective_iff
    by (simp add: shuffledSession_def initialSession_def currentBatchData_def BATCH_SIZE_def q1_def)
  have c: "score (mcqState shuffledSession) (localMcqData shuffledSession) = Inr 0"
    by (simp add: shuffledSession_def initialSession_def score_def Object_keys_def)
  have q: "correctAnswer (currentBatchData shuffledSession ! 0) = 1"
    by (simp add: shuffledSession_def initialSession_def currentBatchData_def BATCH_SIZE_def q1_def)
  note t = answers_keyed_by_session_position [of 0 shuffledSession 1 0]
  have d: "currentBatchData shuffledSession ! 0 = localMcqData shuffledSession ! (batchIndex shuffledSession * BATCH_SIZE + 0)"
    using t a by blast
  have e: "map_of (mcqState (clickOption 0 1 shuffledSession)) = (map_of (mcqState shuffledSession))(batchIndex shuffledSession * BATCH_SIZE + 0 \<mapsto> 1)"
    using t b by blast
  have "score (mcqState (clickOption 0 1 shuffledSession)) (localMcqData (clickOption 0 1 shuffledSession))
      = Inr (0 + (if 1 = correctAnswer (currentBatchData shuffledSession ! 0) then 1 else 0))"
    using t b c by blast
  then have f: "score (mcqState (clickOption 0 1 shuffledSession)) (localMcqData (clickOption 0 1 shuffledSession)) = Inr 1"
    using q by simp
  show ?thesis by (intro conjI a d b e c f)
qed

section \<open>Writes of the snapshot\<close>

lemma Object_keys_empty_iff: "Object_keys m = [] \<longleftrightarrow> m = []"
proof -
  have "Object_keys m = [] \<longleftrightarrow> set (Object_keys m) = {}" by simp
  also have "\<dots> \<longleftrightarrow> m = []" by (simp add: Object_keys_def)
  finally show ?thesis .
qed

lemma answer_writes:
  assumes "clickOption l v s \<noteq> s"
  shows "answer cid l v s
       = (clickOption l v s, [SetItem (storageKey cid) (snapshotOf (clickOption l v s))])"
proof -
  from assms have g: "\<not> showResults s"
    by (simp add: clickOption_effective_iff)
  have "map_of (mcqState (clickOption l v s)) (batchIndex s * BATCH_SIZE + l) = Some v"
    using assms by (simp add: clickOption_map)
  then have ne: "mcqState (clickOption l v s) \<noteq> []" by auto
  have "mcqState (clickOption l v s) \<noteq> mcqState s"
    using assms by (auto simp: clickOption_def Let_def split: if_splits)
  then have "depsChanged s (clickOption l v s)" by (simp add: depsChanged_def)
  then show ?thesis
    using g ne by (simp add: answer_def afterRender_def persistEffect_def Object_keys_empty_iff)
qed

lemma nextBatch_writes:
  assumes "\<not> showResults s" "clickNext s \<noteq> s"
  shows "nextBatch cid s
       = (clickNext s,
          if mcqState s = [] then [] else [SetItem (storageKey cid) (snapshotOf (clickNext s))])"
proof -
  from assms(2) have c: "clickNext s = s\<lparr>batchIndex := batchIndex s + 1\<rparr>"
    by (auto simp: clickNext_def split: if_splits)
  show ?thesis
    unfolding nextBatch_def afterRender_def c
    using assms(1) by (simp add: depsChanged_def persistEffect_def Object_keys_empty_iff)
qed

lemma prevBatch_writes:
  assumes "\<not> showResults s" "clickPrev s \<noteq> s"
  shows "prevBatch cid s
       = (clickPrev s,
          if mcqState s = [] then [] else [SetItem (storageKey cid) (snapshotOf (clickPrev s))])"
proof -
  from assms(2) have c: "clickPrev s = s\<lparr>batchIndex := batchIndex s - 1\<rparr>" and p: "0 < batchIndex s"
    by (auto simp: clickPrev_def split: if_splits)
  show ?thesis
    unfolding prevBatch_def afterRender_def c
    using assms(1) p by (simp add: depsChanged_def persistEffect_def Object_keys_empty_iff)
qed

lemma InProgress_flags:
  "phaseOf False s = InProgress \<longleftrightarrow> \<not> showResults s \<and> \<not> showResumePrompt s \<and> \<not> showSubmitModal s"
  by (simp add: phaseOf_def)

lemma longSession_fields:
  "mcqState longSession = []" "batchIndex longSession = 0"
  "length (localMcqData longSession) = 120"
  "\<not> showResults longSession" "\<not> showResumePrompt longSession" "\<not> showSubmitModal longSession"
  by (simp_all add: longSession_def initialSession_def)

lemma answeredSession_fields:
  "mcqState answeredSession = [(0, 0)]" "batchIndex answeredSession = 1"
  "localMcqData answeredSession = localMcqData longSession"
  "\<not> showResults answeredSession" "\<not> showResumePrompt answeredSession"
  "\<not> showSubmitModal answeredSession"
  by (simp_all add: answeredSession_def longSession_fields)

text \<open>
  Claim C9 as it is written has a write on every move to another batch. The
  persistence effect writes only once the answer map has a key: in a session
  of 120 questions with no answer yet, moving to the next batch changes the
  batch and writes nothing.
\<close>

theorem navigation_before_first_answer_counterexample:
  "phaseOf False longSession = InProgress
   \<and> batchIndex longSession = 0
   \<and> batchIndex (fst (nextBatch ''ch1'' longSession)) = 1
   \<and> snd (nextBatch ''ch1'' longSession) = []"
proof -
  have c: "clickNext longSession = longSession\<lparr>batchIndex := 1\<rparr>"
    by (simp add: clickNext_def BATCH_SIZE_def longSession_fields)
  have "nextBatch ''ch1'' longSession = (longSession\<lparr>batchIndex := 1\<rparr>, [])"
    unfolding nextBatch_def afterRender_def c
    by (simp add: depsChanged_def persistEffect_def longSession_fields Object_keys_def)
  then show ?thesis
    by (simp add: phaseOf_def longSession_fields)
qed

text \<open>
  Claim C9, as amended. While the session is InProgress, every accepted answer
  is followed by a write of the snapshot that holds it; a move to the next or
  the previous batch is followed by a write of the new snapshot when at least
  one answer has been recorded, and by no write before the first answer.
\<close>

theorem mutations_persist:
  "(phaseOf False s = InProgress \<and> clickOption l v s \<noteq> s \<longrightarrow>
      answer cid l v s
        = (clickOption l v s, [SetItem (storageKey cid) (snapshotOf (clickOption l v s))]))
   \<and> (phaseOf False s = InProgress \<and> clickNext s \<noteq> s \<longrightarrow>
        nextBatch cid s
          = (clickNext s,
             if mcqState s = [] then []
             else [SetItem (storageKey cid) (snapshotOf (clickNext s))]))
   \<and> (phaseOf False s = InProgress \<and> clickPrev s \<noteq> s \<longrightarrow>
        prevBatch cid s
          = (clickPrev s,
             if mcqState s = [] then []
             else [SetItem (storageKey cid) (snapshotOf (clickPrev s))]))"
proof (intro conjI impI)
  assume "phaseOf False s = InProgress \<and> clickOption l v s \<noteq> s"
  then show "answer cid l v s
        = (clickOption l v s, [SetItem (storageKey cid) (snapshotOf (clickOption l v s))])"
    using answer_writes [of l v s cid] by blast
next
  assume "phaseOf False s = InProgress \<and> clickNext s \<noteq> s"
  then have "\<not> showResults s" "clickNext s \<noteq> s" by (simp_all add: InProgress_flags)
  then show "nextBatch cid s
          = (clickNext s,
             if mcqState s = [] then []
             else [SetItem (storageKey cid) (snapshotOf (clickNext s))])"
    by (rule nextBatch_writes)
next
  assume "phaseOf False s = InProgress \<and> clickPrev s \<noteq> s"
  then have "\<not> showResults s" "clickPrev s \<noteq> s" by (simp_all add: InProgress_flags)
  then show "prevBatch cid s
          = (clickPrev s,
             if mcqState s = [] then []
             else [SetItem (storageKey cid) (snapshotOf (clickPrev s))])"
    by (rule prevBatch_writes)
qed

theorem mutations_persist_witness:
  "phaseOf False answeredSession = InProgress
   \<and> clickOption 2 1 answeredSession \<noteq> answeredSession
   \<and> snd (answer ''ch1'' 2 1 answeredSession)
       = [SetItem ''nst_mcq_progress_ch1''
            \<lparr>snap_mcqState = [(0, 0), (52, 1)], snap_batchIndex = 1,
             snap_localMcqData = localMcqData longSession\<rparr>]
   \<and> clickNext answeredSession \<noteq> answeredSession
   \<and> snd (nextBatch ''ch1'' answeredSession)
       = [SetItem ''nst_mcq_progress_ch1''
            \<lparr>snap_mcqState = [(0, 0)], snap_batchIndex = 2,
             snap_localMcqData = localMcqData longSession\<rparr>]
   \<and> clickPrev answeredSession \<noteq> answeredSession
   \<and> snd (prevBatch ''ch1'' answeredSession)
       = [SetItem ''nst_mcq_progress_ch1''
            \<lparr>snap_mcqState = [(0, 0)], snap_batchIndex = 0,
             snap_localMcqData = localMcqData longSession\<rparr>]"
proof -
  let ?s = answeredSession
  note fl = answeredSession_fields
  have len: "length (localMcqData ?s) = 120"
    by (simp add: fl longSession_fields)
  have p: "phaseOf False ?s = InProgress"
    by (simp add: phaseOf_def fl)
  have cl: "2 < length (currentBatchData ?s)"
    by (simp add: currentBatchData_def BATCH_SIZE_def fl(2) len)
  have q: "currentBatchData ?s ! 2 = q0"
    by (simp add: currentBatchData_def BATCH_SIZE_def fl(2,3) longSession_def)
  have a: "clickOption 2 1 ?s \<noteq> ?s"
    unfolding clickOption_effective_iff
    using cl by (simp add: q fl BATCH_SIZE_def q0_def)
  have ca: "clickOption 2 1 ?s = ?s\<lparr>mcqState := [(0, 0), (52, 1)]\<rparr>"
    using cl by (simp add: clickOption_def Let_def q fl BATCH_SIZE_def q0_def)
  have cn: "clickNext ?s = ?s\<lparr>batchIndex := 2\<rparr>"
    by (simp add: clickNext_def BATCH_SIZE_def fl(2) len)
  have cp: "clickPrev ?s = ?s\<lparr>batchIndex := 0\<rparr>"
    by (simp add: clickPrev_def fl(2))
  have n: "clickNext ?s \<noteq> ?s"
  proof
    assume "clickNext ?s = ?s"
    then have "batchIndex (clickNext ?s) = batchIndex ?s" by simp
    then show False unfolding cn by (simp add: fl(2))
  qed
  have r: "clickPrev ?s \<noteq> ?s"
  proof
    assume "clickPrev ?s = ?s"
    then have "batchIndex (clickPrev ?s) = batchIndex ?s" by simp
    then show False unfolding cp by (simp add: fl(2))
  qed
  note t = mutations_persist [of ?s 2 1 "''ch1''"]
  have "answer ''ch1'' 2 1 ?s
        = (clickOption 2 1 ?s, [SetItem (storageKey ''ch1'') (snapshotOf (clickOption 2 1 ?s))])"
    using t p a by blast
  then have wa: "snd (answer ''ch1'' 2 1 ?s)
       = [SetItem ''nst_mcq_progress_ch1''
            \<lparr>snap_mcqState = [(0, 0), (52, 1)], snap_batchIndex = 1,
             snap_localMcqData = localMcqData longSession\<rparr>]"
    unfolding ca by (simp add: storageKey_def snapshotOf_def fl)
  have "nextBatch ''ch1'' ?s
          = (clickNext ?s,
             if mcqState ?s = [] then []
             else [SetItem (storageKey ''ch1'') (snapshotOf (clickNext ?s))])"
    using t p n by blast
  then have wn: "snd (nextBatch ''ch1'' ?s)
       = [SetItem ''nst_mcq_progress_ch1''
            \<lparr>snap_mcqState = [(0, 0)], snap_batchIndex = 2,
             snap_localMcqData = localMcqData longSession\<rparr>]"
    unfolding cn by (simp add: storageKey_def snapshotOf_def fl)
  have "prevBatch ''ch1'' ?s
          = (clickPrev ?s,
             if mcqState ?s = [] then []
             else [SetItem (storageKey ''ch1'') (snapshotOf (clickPrev ?s))])"
    using t p r by blast
  then have wp: "snd (prevBatch ''ch1'' ?s)
       = [SetItem ''nst_mcq_progress_ch1''
            \<lparr>snap_mcqState = [(0, 0)], snap_batchIndex = 0,
             snap_localMcqData = localMcqData longSession\<rparr>]"
    unfolding cp by (simp add: storageKey_def snapshotOf_def fl)
  show ?thesis by (intro conjI p a wa n wn r wp)
qed

section \<open>The persisted value at start and on resume\<close>






lemma handleResume_raises:
  "JSON_parse (x # t) = None \<Longrightarrow> handleResume JSON_parse (Some (x # t)) s = Inl SyntaxError"
  "JSON_parse (x # t) = Some JNull \<Longrightarrow> handleResume JSON_parse (Some (x # t)) s = Inl TypeError"
  by (simp_all add: handleResume_def)




end
